theory Spec2Isabelle
  imports Main
begin

section \<open>Data model of package gendiff\<close>

text \<open>
  Go's \<^verbatim>\<open>int\<close> is rendered as the integers of HOL. The arithmetic of \<^verbatim>\<open>Make\<close> is on
  table indices, which stay between \<open>-1\<close> and the dimensions of the table it has
  allocated; the sums, differences and the doubling in \<^verbatim>\<open>Compact\<close> are read as those of
  the integers as well. Running out of memory is not modelled.
\<close>

text \<open>\<^verbatim>\<open>type Op int\<close> with its four constants; \<open>noOp\<close> is the zero value.\<close>

datatype Op = noOp | Match | Delete | Insert

text \<open>\<^verbatim>\<open>type Interface interface { LeftLen() int; RightLen() int; Equal(l, r int) bool }\<close>:
  the three methods of a comparison, as pure functions of the receiver.\<close>

record Interface =
  LeftLen :: int
  RightLen :: int
  Equal :: "int \<Rightarrow> int \<Rightarrow> bool"

record Diff =
  Op :: Op
  Lstart :: int
  Lend :: int
  Rstart :: int
  Rend :: int

definition Len :: "Diff \<Rightarrow> int" where
  "Len d = (case Op d of
      Match \<Rightarrow> Lend d - Lstart d
    | Delete \<Rightarrow> Lend d - Lstart d
    | Insert \<Rightarrow> Rend d - Rstart d
    | noOp \<Rightarrow> -1)"

record cell =
  op :: Op
  length_cell :: int

type_synonym table = "cell list list"

text \<open>
  The ways a call can abort. The first three are the panics of the Go code: a
  \<^verbatim>\<open>make\<close> with a negative length, an index outside a slice, and the explicit
  \<^verbatim>\<open>panic("DP table construction error, ...")\<close> of the backward trace. \<open>InvalidInput\<close>
  is the error the specification names for rejected lengths; no statement of the
  package raises it.
\<close>

datatype error =
  MakesliceLenOutOfRange
| IndexOutOfRange
| DPTableConstructionError
| InvalidInput

section \<open>Slices\<close>

text \<open>\<^verbatim>\<open>make([]T, n, n)\<close>: a slice of \<open>n\<close> zero values, a panic when \<open>n\<close> is negative.\<close>

definition make_slice :: "int \<Rightarrow> 'a \<Rightarrow> error + 'a list" where
  "make_slice n zero = (if n < 0 then Inl MakesliceLenOutOfRange else Inr (replicate (nat n) zero))"

text \<open>\<^verbatim>\<open>table[lidx][ridx]\<close> as a read and as an assignment; both panic outside the slice.\<close>

definition get_cell :: "table \<Rightarrow> int \<Rightarrow> int \<Rightarrow> error + cell" where
  "get_cell table lidx ridx =
     (if 0 \<le> lidx \<and> lidx < int (length table) then
        (if 0 \<le> ridx \<and> ridx < int (length (table ! nat lidx))
         then Inr (table ! nat lidx ! nat ridx)
         else Inl IndexOutOfRange)
      else Inl IndexOutOfRange)"

definition set_cell :: "table \<Rightarrow> int \<Rightarrow> int \<Rightarrow> cell \<Rightarrow> error + table" where
  "set_cell table lidx ridx c =
     (if 0 \<le> lidx \<and> lidx < int (length table) then
        (if 0 \<le> ridx \<and> ridx < int (length (table ! nat lidx))
         then Inr (table[nat lidx := (table ! nat lidx)[nat ridx := c]])
         else Inl IndexOutOfRange)
      else Inl IndexOutOfRange)"

text \<open>\<^verbatim>\<open>table[lidx] = row\<close>.\<close>

definition set_row :: "table \<Rightarrow> int \<Rightarrow> cell list \<Rightarrow> error + table" where
  "set_row table lidx row =
     (if 0 \<le> lidx \<and> lidx < int (length table)
      then Inr (table[nat lidx := row])
      else Inl IndexOutOfRange)"

text \<open>
  A \<^verbatim>\<open>for\<close> loop whose counter runs over a fixed list of values and whose body may
  panic: the body is applied to the state for each value in turn, and the first
  panic ends the loop.
\<close>

fun for_each :: "int list \<Rightarrow> (int \<Rightarrow> 's \<Rightarrow> error + 's) \<Rightarrow> 's \<Rightarrow> error + 's" where
  "for_each [] body s = Inr s"
| "for_each (i # is) body s =
     (case body i s of Inl e \<Rightarrow> Inl e | Inr s' \<Rightarrow> for_each is body s')"

text \<open>\<^verbatim>\<open>for i = range xs\<close>: the indices \<open>0, ..., len(xs) - 1\<close>.\<close>

definition range_of :: "'a list \<Rightarrow> int list" where
  "range_of xs = [0..int (length xs) - 1]"

section \<open>Make\<close>

text \<open>
  The \<^verbatim>\<open>switch\<close> that labels one cell from its three neighbours: the cell to
  store, or \<open>None\<close> when no \<^verbatim>\<open>case\<close> applies and nothing is stored.
\<close>

definition fill_cell :: "bool \<Rightarrow> cell \<Rightarrow> cell \<Rightarrow> cell \<Rightarrow> cell option" where
  "fill_cell equal lcell rcell lrcell =
     (if equal then Some \<lparr>op = Match, length_cell = length_cell lrcell + 1\<rparr>
      else if length_cell lcell < length_cell rcell
        then Some \<lparr>op = Delete, length_cell = length_cell rcell\<rparr>
      else if length_cell lcell \<ge> length_cell rcell
        then Some \<lparr>op = Insert, length_cell = length_cell lcell\<rparr>
      else None)"

text \<open>The body of the inner loop, at \<open>(lidx, ridx)\<close>.\<close>

definition fill_step :: "Interface \<Rightarrow> int \<Rightarrow> int \<Rightarrow> table \<Rightarrow> error + table" where
  "fill_step iface lidx ridx table =
     (case get_cell table lidx (ridx - 1) of Inl e \<Rightarrow> Inl e | Inr lcell \<Rightarrow>
      case get_cell table (lidx - 1) ridx of Inl e \<Rightarrow> Inl e | Inr rcell \<Rightarrow>
      case get_cell table (lidx - 1) (ridx - 1) of Inl e \<Rightarrow> Inl e | Inr lrcell \<Rightarrow>
      case fill_cell (Equal iface (lidx - 1) (ridx - 1)) lcell rcell lrcell of
        None \<Rightarrow> Inr table
      | Some c \<Rightarrow> set_cell table lidx ridx c)"

text \<open>
  The table of \<^verbatim>\<open>Make\<close>: allocation, the base column and row, the start point and the
  two nested loops.
\<close>

definition build_table :: "Interface \<Rightarrow> error + table" where
  "build_table iface =
     (let llen = LeftLen iface; rlen = RightLen iface in
      case make_slice (llen + 1) [] of Inl e \<Rightarrow> Inl e | Inr table \<Rightarrow>
      case for_each (range_of table)
             (\<lambda>lidx table. case make_slice (rlen + 1) \<lparr>op = noOp, length_cell = 0\<rparr> of
                 Inl e \<Rightarrow> Inl e | Inr row \<Rightarrow> set_row table lidx row) table
        of Inl e \<Rightarrow> Inl e | Inr table \<Rightarrow>
      case for_each (range_of table)
             (\<lambda>lidx table. set_cell table lidx 0 \<lparr>op = Delete, length_cell = 0\<rparr>) table
        of Inl e \<Rightarrow> Inl e | Inr table \<Rightarrow>
      if table = [] then Inl IndexOutOfRange else
      case for_each (range_of (table ! 0))
             (\<lambda>ridx table. set_cell table 0 ridx \<lparr>op = Insert, length_cell = 0\<rparr>) table
        of Inl e \<Rightarrow> Inl e | Inr table \<Rightarrow>
      case set_cell table 0 0 \<lparr>op = Match, length_cell = 0\<rparr>
        of Inl e \<Rightarrow> Inl e | Inr table \<Rightarrow>
      for_each [1..llen]
        (\<lambda>lidx table. for_each [1..rlen] (\<lambda>ridx table. fill_step iface lidx ridx table) table)
        table)"

text \<open>
  The closure \<^verbatim>\<open>record\<close>; the variables \<^verbatim>\<open>diffs\<close> and \<^verbatim>\<open>lastdiff\<close> it captures are
  the state it transforms.
\<close>

definition record_diff :: "Op \<Rightarrow> int \<Rightarrow> int \<Rightarrow> Diff list \<times> Diff \<Rightarrow> Diff list \<times> Diff" where
  "record_diff opr lidx ridx st =
     (let diffs = fst st;
          lastdiff = (snd st)\<lparr>Lstart := lidx, Rstart := ridx\<rparr>
      in if opr \<noteq> Op lastdiff
         then (diffs @ [lastdiff],
               lastdiff\<lparr>Op := opr, Lend := Lstart lastdiff, Rend := Rstart lastdiff\<rparr>)
         else (diffs, lastdiff))"

text \<open>
  The backward loop \<^verbatim>\<open>for lidx > 0 || ridx > 0\<close>. Each round reads a cell (a panic
  outside the table), records it and moves to the neighbour the cell names, so
  \<open>lidx + ridx\<close> decreases as long as both are inside the table.
\<close>

function trace :: "table \<Rightarrow> int \<Rightarrow> int \<Rightarrow> Diff list \<times> Diff \<Rightarrow> error + Diff list \<times> Diff" where
  "trace table lidx ridx st =
     (if lidx > 0 \<or> ridx > 0 then
        (case get_cell table lidx ridx of
           Inl e \<Rightarrow> Inl e
         | Inr c \<Rightarrow>
            (case op c of
               Match \<Rightarrow> trace table (lidx - 1) (ridx - 1) (record_diff (op c) lidx ridx st)
             | Delete \<Rightarrow> trace table (lidx - 1) ridx (record_diff (op c) lidx ridx st)
             | Insert \<Rightarrow> trace table lidx (ridx - 1) (record_diff (op c) lidx ridx st)
             | noOp \<Rightarrow> Inl DPTableConstructionError))
      else Inr st)"
  by pat_completeness auto
termination
  by (relation "measure (\<lambda>(table, lidx, ridx, st). nat (lidx + ridx))")
     (auto simp: get_cell_def split: if_splits)

declare trace.simps [simp del]

definition Make :: "Interface \<Rightarrow> error + Diff list" where
  "Make iface =
     (let llen = LeftLen iface; rlen = RightLen iface in
      case build_table iface of Inl e \<Rightarrow> Inl e | Inr table \<Rightarrow>
      case get_cell table llen rlen of Inl e \<Rightarrow> Inl e | Inr lastcell \<Rightarrow>
      case trace table llen rlen
             ([], \<lparr>Op = op lastcell, Lstart = llen, Lend = llen, Rstart = rlen, Rend = rlen\<rparr>)
        of Inl e \<Rightarrow> Inl e | Inr st \<Rightarrow>
      Inr (rev (fst (record_diff noOp 0 0 st))))"

text \<open>The comparison of the package's tests: two strings, compared byte by byte.\<close>

definition testcase :: "string \<Rightarrow> string \<Rightarrow> Interface" where
  "testcase left right =
     \<lparr>LeftLen = int (length left), RightLen = int (length right),
      Equal = (\<lambda>l r. left ! nat l = right ! nat r)\<rparr>"

section \<open>Compact\<close>

text \<open>The closures \<^verbatim>\<open>prefix\<close> and \<^verbatim>\<open>suffix\<close>, with the \<^verbatim>\<open>contextLen\<close> they capture.\<close>

definition prefix :: "int \<Rightarrow> Diff \<Rightarrow> Diff" where
  "prefix contextLen match =
     \<lparr>Op = Match,
      Lstart = Lstart match, Lend = Lstart match + contextLen,
      Rstart = Rstart match, Rend = Rstart match + contextLen\<rparr>"

definition suffix :: "int \<Rightarrow> Diff \<Rightarrow> Diff" where
  "suffix contextLen match =
     \<lparr>Op = Match,
      Lstart = Lend match - contextLen, Lend = Lend match,
      Rstart = Rend match - contextLen, Rend = Rend match\<rparr>"

text \<open>The slice expression \<^verbatim>\<open>xs[a:b]\<close>, for \<open>a \<le> b \<le> len(xs)\<close>.\<close>

definition slice :: "'a list \<Rightarrow> nat \<Rightarrow> nat \<Rightarrow> 'a list" where
  "slice xs a b = take (b - a) (drop a xs)"

text \<open>\<^verbatim>\<open>nil\<close> and the empty slice are both the empty list.\<close>

definition Compact :: "Diff list \<Rightarrow> int \<Rightarrow> Diff list" where
  "Compact diffs contextLen =
     (if length diffs = 0 then diffs
      else if length diffs = 1 then
        (if Op (diffs ! 0) = Match then [] else diffs)
      else if length diffs = 2 then
        (if Op (diffs ! 0) = Match \<and> Len (diffs ! 0) > contextLen
           then [suffix contextLen (diffs ! 0), diffs ! 1]
         else if Op (diffs ! 1) = Match \<and> Len (diffs ! 1) > contextLen
           then [diffs ! 0, prefix contextLen (diffs ! 1)]
         else diffs)
      else
        (let first = diffs ! 0;
             middle = slice diffs 1 (length diffs - 1);
             lastd = diffs ! (length diffs - 1);
             out = [];
             out = (if Op first = Match \<and> Len first > contextLen
                    then out @ [suffix contextLen first]
                    else out @ [first]);
             out = fold (\<lambda>d out.
                      if Op d = Match \<and> Len d > contextLen * 2
                      then out @ [prefix contextLen d, suffix contextLen d]
                      else out @ [d]) middle out;
             out = (if Op lastd = Match \<and> Len lastd > contextLen
                    then out @ [prefix contextLen lastd]
                    else out @ [lastd])
         in out))"

section \<open>Consuming an edit script\<close>




section \<open>Vocabulary of the specification\<close>

text \<open>
  The invariants of one record (section 3 of the specification): a \<open>Match\<close> covers as
  many right items as left items, a \<open>Delete\<close> no right item, an \<open>Insert\<close> no left
  item, and no range is negative.
\<close>

definition wf_diff :: "Diff \<Rightarrow> bool" where
  "wf_diff d =
     (case Op d of
        Match \<Rightarrow> 0 \<le> Lend d - Lstart d \<and> Rend d - Rstart d = Lend d - Lstart d
      | Delete \<Rightarrow> 0 \<le> Lend d - Lstart d \<and> Rstart d = Rend d
      | Insert \<Rightarrow> 0 \<le> Rend d - Rstart d \<and> Lstart d = Lend d
      | noOp \<Rightarrow> False)"

text \<open>
  Records that follow one another from \<open>(l, r)\<close> to \<open>(NL, NR)\<close>: each starts where the
  one before it ends.
\<close>

fun linked :: "int \<Rightarrow> int \<Rightarrow> int \<Rightarrow> int \<Rightarrow> Diff list \<Rightarrow> bool" where
  "linked l r NL NR [] = (l = NL \<and> r = NR)"
| "linked l r NL NR (d # ds) =
     (Lstart d = l \<and> Rstart d = r \<and> wf_diff d \<and> linked (Lend d) (Rend d) NL NR ds)"

text \<open>
  A well-formed edit script for lengths \<open>NL\<close> and \<open>NR\<close>: linked from \<open>(0, 0)\<close> to
  \<open>(NL, NR)\<close>, and no two adjacent records with the same operation.
\<close>

definition well_formed :: "int \<Rightarrow> int \<Rightarrow> Diff list \<Rightarrow> bool" where
  "well_formed NL NR ds \<longleftrightarrow> linked 0 0 NL NR ds \<and> distinct_adj (map Op ds)"



section \<open>Auxiliary notions for the proofs\<close>

text \<open>
  The cell that the dynamic program stores at \<open>(l, r)\<close>, as a function of the
  predicate: the base row and column, and elsewhere the \<^verbatim>\<open>switch\<close> of the inner loop
  applied to the three neighbours.
\<close>

function dp_cell :: "(int \<Rightarrow> int \<Rightarrow> bool) \<Rightarrow> int \<Rightarrow> int \<Rightarrow> cell" where
  "dp_cell eq l r =
     (if l \<le> 0 \<and> r \<le> 0 then \<lparr>op = Match, length_cell = 0\<rparr>
      else if r \<le> 0 then \<lparr>op = Delete, length_cell = 0\<rparr>
      else if l \<le> 0 then \<lparr>op = Insert, length_cell = 0\<rparr>
      else if eq (l - 1) (r - 1)
        then \<lparr>op = Match, length_cell = length_cell (dp_cell eq (l - 1) (r - 1)) + 1\<rparr>
      else if length_cell (dp_cell eq l (r - 1)) < length_cell (dp_cell eq (l - 1) r)
        then \<lparr>op = Delete, length_cell = length_cell (dp_cell eq (l - 1) r)\<rparr>
      else \<lparr>op = Insert, length_cell = length_cell (dp_cell eq l (r - 1))\<rparr>)"
  by pat_completeness auto
termination
  by (relation "measure (\<lambda>(eq, l, r). nat l + nat r)") auto

declare dp_cell.simps [simp del]

text \<open>The cell of a table at an index pair inside it.\<close>

definition cell_at :: "table \<Rightarrow> int \<Rightarrow> int \<Rightarrow> cell" where
  "cell_at T l r = T ! nat l ! nat r"

text \<open>A table of \<open>NL + 1\<close> rows of \<open>NR + 1\<close> cells.\<close>

definition shape :: "int \<Rightarrow> int \<Rightarrow> table \<Rightarrow> bool" where
  "shape NL NR T \<longleftrightarrow>
     int (length T) = NL + 1 \<and> (\<forall>l. 0 \<le> l \<and> l \<le> NL \<longrightarrow> int (length (T ! nat l)) = NR + 1)"

text \<open>
  The cells that are final when the loops stand at \<open>(i, j)\<close>: the rows above \<open>i\<close>, the
  base column, and row \<open>i\<close> up to column \<open>j\<close>.
\<close>

definition filled :: "int \<Rightarrow> int \<Rightarrow> int \<Rightarrow> int \<Rightarrow> bool" where
  "filled i j l r \<longleftrightarrow> l < i \<or> r = 0 \<or> (l = i \<and> r < j)"

text \<open>The invariant of the two nested loops: every final cell holds its \<open>dp_cell\<close>.\<close>

definition tab_inv :: "Interface \<Rightarrow> int \<Rightarrow> int \<Rightarrow> table \<Rightarrow> bool" where
  "tab_inv iface i j T \<longleftrightarrow>
     shape (LeftLen iface) (RightLen iface) T \<and>
     (\<forall>l r. 0 \<le> l \<and> l \<le> LeftLen iface \<and> 0 \<le> r \<and> r \<le> RightLen iface \<and> filled i j l r
        \<longrightarrow> cell_at T l r = dp_cell (Equal iface) l r)"

text \<open>A record whose ranges fit its operation and whose matched pairs satisfy \<open>eq\<close>.\<close>

definition valid_diff :: "(int \<Rightarrow> int \<Rightarrow> bool) \<Rightarrow> Diff \<Rightarrow> bool" where
  "valid_diff eq d =
     (case Op d of
        Match \<Rightarrow> Lstart d \<le> Lend d \<and> Rend d - Rstart d = Lend d - Lstart d \<and>
                 (\<forall>i. 0 \<le> i \<and> i < Lend d - Lstart d \<longrightarrow> eq (Lstart d + i) (Rstart d + i))
      | Delete \<Rightarrow> Lstart d \<le> Lend d \<and> Rstart d = Rend d
      | Insert \<Rightarrow> Rstart d \<le> Rend d \<and> Lstart d = Lend d
      | noOp \<Rightarrow> False)"

text \<open>Valid records that follow one another from \<open>(l, r)\<close> to \<open>(NL, NR)\<close>.\<close>

fun chain :: "(int \<Rightarrow> int \<Rightarrow> bool) \<Rightarrow> int \<Rightarrow> int \<Rightarrow> int \<Rightarrow> int \<Rightarrow> Diff list \<Rightarrow> bool" where
  "chain eq l r NL NR [] = (l = NL \<and> r = NR)"
| "chain eq l r NL NR (d # ds) =
     (Lstart d = l \<and> Rstart d = r \<and> valid_diff eq d \<and> chain eq (Lend d) (Rend d) NL NR ds)"

text \<open>The sum of the lengths of the \<open>Match\<close> records of a script.\<close>

definition match_total :: "Diff list \<Rightarrow> int" where
  "match_total ds = sum_list (map Len (filter (\<lambda>d. Op d = Match) ds))"

text \<open>
  The script that the backward loop has built when it stands at \<open>(l, r)\<close>: the record
  under construction, started at \<open>(l, r)\<close>, in front of the recorded ones.
\<close>

definition pending :: "int \<Rightarrow> int \<Rightarrow> Diff list \<times> Diff \<Rightarrow> Diff list" where
  "pending l r st = (snd st)\<lparr>Lstart := l, Rstart := r\<rparr> # rev (fst st)"

text \<open>The invariant of the backward loop.\<close>

definition trace_inv :: "Interface \<Rightarrow> int \<Rightarrow> int \<Rightarrow> Diff list \<times> Diff \<Rightarrow> bool" where
  "trace_inv iface l r st \<longleftrightarrow>
     chain (Equal iface) l r (LeftLen iface) (RightLen iface) (pending l r st) \<and>
     distinct_adj (map Op (pending l r st)) \<and>
     match_total (pending l r st) + length_cell (dp_cell (Equal iface) l r)
       = length_cell (dp_cell (Equal iface) (LeftLen iface) (RightLen iface))"


text \<open>The invariant of the backward loop on the diagonal of a table of equal items.\<close>

definition diag_inv :: "int \<Rightarrow> int \<Rightarrow> int \<Rightarrow> Diff list \<times> Diff \<Rightarrow> bool" where
  "diag_inv n l r st \<longleftrightarrow>
     l = r \<and> fst st = [] \<and> Op (snd st) = Match \<and> Lend (snd st) = n \<and> Rend (snd st) = n"

section \<open>The table\<close>

lemma for_each_upto:
  assumes "I a s" and "a \<le> b + 1"
    and "\<And>i s. a \<le> i \<Longrightarrow> i \<le> b \<Longrightarrow> I i s \<Longrightarrow> \<exists>s'. body i s = Inr s' \<and> I (i + 1) s'"
  shows "\<exists>s'. for_each [a..b] body s = Inr s' \<and> I (b + 1) s'"
  using assms
proof (induction "nat (b + 1 - a)" arbitrary: a s)
  case 0
  then have "a = b + 1" by simp
  with 0 show ?case by simp
next
  case (Suc n)
  then have ab: "a \<le> b" by simp
  from Suc.prems(3)[OF _ ab Suc.prems(1)] obtain s1 where s1: "body a s = Inr s1" "I (a + 1) s1"
    by auto
  have "\<exists>s'. for_each [a + 1..b] body s1 = Inr s' \<and> I (b + 1) s'"
  proof (rule Suc.hyps(1))
    show "n = nat (b + 1 - (a + 1))" using Suc.hyps(2) by simp
    show "I (a + 1) s1" by (rule s1)
    show "a + 1 \<le> b + 1" using ab by simp
    show "\<And>i s. a + 1 \<le> i \<Longrightarrow> i \<le> b \<Longrightarrow> I i s \<Longrightarrow> \<exists>s'. body i s = Inr s' \<and> I (i + 1) s'"
      using Suc.prems(3) by simp
  qed
  then show ?case using ab s1 by (simp add: upto_rec1[of a b])
qed

lemma shape_get:
  "shape NL NR T \<Longrightarrow> 0 \<le> l \<Longrightarrow> l \<le> NL \<Longrightarrow> 0 \<le> r \<Longrightarrow> r \<le> NR \<Longrightarrow>
   get_cell T l r = Inr (cell_at T l r)"
  by (simp add: shape_def get_cell_def cell_at_def)

lemma shape_set:
  assumes "shape NL NR T" "0 \<le> l" "l \<le> NL" "0 \<le> r" "r \<le> NR"
  shows "\<exists>T'. set_cell T l r c = Inr T' \<and> shape NL NR T' \<and>
           (\<forall>l' r'. 0 \<le> l' \<and> l' \<le> NL \<and> 0 \<le> r' \<and> r' \<le> NR \<longrightarrow>
              cell_at T' l' r' = (if l' = l \<and> r' = r then c else cell_at T l' r'))"
proof -
  let ?T' = "T[nat l := (T ! nat l)[nat r := c]]"
  have len: "int (length T) = NL + 1" and row: "int (length (T ! nat l)) = NR + 1"
    using assms by (auto simp: shape_def)
  have 1: "set_cell T l r c = Inr ?T'"
    using assms len row by (simp add: set_cell_def)
  have 2: "shape NL NR ?T'"
    using assms unfolding shape_def
    by (auto simp: nth_list_update)
  have 3: "cell_at ?T' l' r' = (if l' = l \<and> r' = r then c else cell_at T l' r')"
    if "0 \<le> l'" "l' \<le> NL" "0 \<le> r'" "r' \<le> NR" for l' r'
  proof -
    have a: "nat l < length T" "nat l' < length T" using len assms that by auto
    have b: "nat r < length (T ! nat l)" using row assms by auto
    have c: "nat l' = nat l \<longleftrightarrow> l' = l" "nat r' = nat r \<longleftrightarrow> r' = r" using assms that by auto
    show ?thesis using a b c by (auto simp: cell_at_def nth_list_update)
  qed
  show ?thesis using 1 2 3 by blast
qed

lemma fill_cell_dp:
  assumes "0 < l" "0 < r"
  shows "fill_cell (eq (l - 1) (r - 1)) (dp_cell eq l (r - 1)) (dp_cell eq (l - 1) r)
           (dp_cell eq (l - 1) (r - 1)) = Some (dp_cell eq l r)"
  using assms by (subst (4) dp_cell.simps) (simp add: fill_cell_def)

lemma fill_step_inv:
  assumes inv: "tab_inv iface i j T" and i: "1 \<le> i" "i \<le> LeftLen iface"
    and j: "1 \<le> j" "j \<le> RightLen iface"
  shows "\<exists>T'. fill_step iface i j T = Inr T' \<and> tab_inv iface (i + 1 - 1) (j + 1) T'"
proof -
  let ?NL = "LeftLen iface" and ?NR = "RightLen iface" and ?eq = "Equal iface"
  from inv have sh: "shape ?NL ?NR T" by (simp add: tab_inv_def)
  have at: "cell_at T l r = dp_cell ?eq l r"
    if "0 \<le> l" "l \<le> ?NL" "0 \<le> r" "r \<le> ?NR" "filled i j l r" for l r
    using inv that by (simp add: tab_inv_def)
  have g1: "get_cell T i (j - 1) = Inr (dp_cell ?eq i (j - 1))"
    using shape_get[OF sh, of i "j - 1"] at[of i "j - 1"] i j by (simp add: filled_def)
  have g2: "get_cell T (i - 1) j = Inr (dp_cell ?eq (i - 1) j)"
    using shape_get[OF sh, of "i - 1" j] at[of "i - 1" j] i j by (simp add: filled_def)
  have g3: "get_cell T (i - 1) (j - 1) = Inr (dp_cell ?eq (i - 1) (j - 1))"
    using shape_get[OF sh, of "i - 1" "j - 1"] at[of "i - 1" "j - 1"] i j by (simp add: filled_def)
  have fc: "fill_cell (?eq (i - 1) (j - 1)) (dp_cell ?eq i (j - 1)) (dp_cell ?eq (i - 1) j)
              (dp_cell ?eq (i - 1) (j - 1)) = Some (dp_cell ?eq i j)"
    using i j by (intro fill_cell_dp) auto
  from shape_set[OF sh, of i j "dp_cell ?eq i j"] i j
  obtain T' where T': "set_cell T i j (dp_cell ?eq i j) = Inr T'" "shape ?NL ?NR T'"
    and upd: "\<And>l' r'. 0 \<le> l' \<Longrightarrow> l' \<le> ?NL \<Longrightarrow> 0 \<le> r' \<Longrightarrow> r' \<le> ?NR \<Longrightarrow>
              cell_at T' l' r' = (if l' = i \<and> r' = j then dp_cell ?eq i j else cell_at T l' r')"
    by auto
  have step: "fill_step iface i j T = Inr T'"
    by (simp add: fill_step_def g1 g2 g3 fc T')
  have "cell_at T' l r = dp_cell ?eq l r"
    if "0 \<le> l" "l \<le> ?NL" "0 \<le> r" "r \<le> ?NR" "filled i (j + 1) l r" for l r
  proof (cases "l = i \<and> r = j")
    case True
    then show ?thesis using upd[OF that(1-4)] by simp
  next
    case False
    then have "filled i j l r" using that(5) by (auto simp: filled_def)
    then show ?thesis using upd[OF that(1-4)] at[OF that(1-4)] False by auto
  qed
  then have "tab_inv iface i (j + 1) T'" using T'(2) by (simp add: tab_inv_def)
  then show ?thesis using step by simp
qed

lemma fill_row_inv:
  assumes inv: "tab_inv iface i 1 T" and i: "1 \<le> i" "i \<le> LeftLen iface"
    and NR: "0 \<le> RightLen iface"
  shows "\<exists>T'. for_each [1..RightLen iface] (\<lambda>ridx table. fill_step iface i ridx table) T = Inr T'
           \<and> tab_inv iface (i + 1) 1 T'"
proof -
  have "\<exists>T'. for_each [1..RightLen iface] (\<lambda>ridx table. fill_step iface i ridx table) T = Inr T'
           \<and> tab_inv iface i (RightLen iface + 1) T'"
  proof (rule for_each_upto[where I = "\<lambda>j T. tab_inv iface i j T"])
    show "tab_inv iface i 1 T" by (rule inv)
    show "1 \<le> RightLen iface + 1" using NR by simp
    show "\<exists>s'. fill_step iface i j s = Inr s' \<and> tab_inv iface i (j + 1) s'"
      if "1 \<le> j" "j \<le> RightLen iface" "tab_inv iface i j s" for j s
      using fill_step_inv[OF that(3) i that(1,2)] by simp
  qed
  then obtain T' where T': "for_each [1..RightLen iface] (\<lambda>ridx table. fill_step iface i ridx table) T = Inr T'"
    "tab_inv iface i (RightLen iface + 1) T'" by blast
  have "filled i (RightLen iface + 1) l r"
    if "0 \<le> r" "r \<le> RightLen iface" "filled (i + 1) 1 l r" for l r
    using that by (auto simp: filled_def)
  then have "tab_inv iface (i + 1) 1 T'"
    using T'(2) unfolding tab_inv_def by blast
  with T'(1) show ?thesis by blast
qed

lemma fill_table_inv:
  assumes inv: "tab_inv iface 1 1 T" and NL: "0 \<le> LeftLen iface" and NR: "0 \<le> RightLen iface"
  shows "\<exists>T'. for_each [1..LeftLen iface]
            (\<lambda>lidx table. for_each [1..RightLen iface] (\<lambda>ridx table. fill_step iface lidx ridx table) table) T
          = Inr T' \<and> tab_inv iface (LeftLen iface + 1) 1 T'"
proof (rule for_each_upto[where I = "\<lambda>i T. tab_inv iface i 1 T"])
  show "tab_inv iface 1 1 T" by (rule inv)
  show "1 \<le> LeftLen iface + 1" using NL by simp
  show "\<exists>s'. for_each [1..RightLen iface] (\<lambda>ridx table. fill_step iface i ridx table) s = Inr s'
          \<and> tab_inv iface (i + 1) 1 s'"
    if "1 \<le> i" "i \<le> LeftLen iface" "tab_inv iface i 1 s" for i s
    using fill_row_inv[OF that(3) that(1,2) NR] .
qed

lemma dp_cell_base:
  "dp_cell eq 0 0 = \<lparr>op = Match, length_cell = 0\<rparr>"
  "0 < l \<Longrightarrow> dp_cell eq l 0 = \<lparr>op = Delete, length_cell = 0\<rparr>"
  "0 < r \<Longrightarrow> dp_cell eq 0 r = \<lparr>op = Insert, length_cell = 0\<rparr>"
  by (simp_all add: dp_cell.simps)

lemma alloc_rows_inv:
  assumes NL: "0 \<le> NL" and NR: "0 \<le> NR" and len: "int (length T) = NL + 1"
  shows "\<exists>T'. for_each (range_of T)
            (\<lambda>lidx table. case make_slice (NR + 1) \<lparr>op = noOp, length_cell = 0\<rparr> of
                Inl e \<Rightarrow> Inl e | Inr row \<Rightarrow> set_row table lidx row) T = Inr T'
          \<and> shape NL NR T'"
proof -
  let ?I = "\<lambda>i T. int (length T) = NL + 1 \<and>
              (\<forall>l. 0 \<le> l \<and> l < i \<longrightarrow> int (length (T ! nat l)) = NR + 1)"
  let ?body = "\<lambda>lidx table. case make_slice (NR + 1) \<lparr>op = noOp, length_cell = 0\<rparr> of
                Inl e \<Rightarrow> Inl e | Inr row \<Rightarrow> set_row table lidx row"
  have "\<exists>T'. for_each [0..NL] ?body T = Inr T' \<and> ?I (NL + 1) T'"
  proof (rule for_each_upto[where I = ?I])
    show "?I 0 T" using len by simp
    show "0 \<le> NL + 1" using NL by simp
    show "\<exists>s'. ?body i s = Inr s' \<and> ?I (i + 1) s'" if "0 \<le> i" "i \<le> NL" "?I i s" for i s
    proof -
      have "nat l = nat i \<longleftrightarrow> l = i" if "0 \<le> l" for l
        using that \<open>0 \<le> i\<close> by auto
      then show ?thesis
        using that NR by (auto simp: make_slice_def set_row_def nth_list_update)
    qed
  qed
  then show ?thesis using len by (auto simp: range_of_def shape_def)
qed

lemma init_deletes_inv:
  assumes NL: "0 \<le> NL" and NR: "0 \<le> NR" and sh: "shape NL NR T"
  shows "\<exists>T'. for_each (range_of T)
            (\<lambda>lidx table. set_cell table lidx 0 \<lparr>op = Delete, length_cell = 0\<rparr>) T = Inr T'
          \<and> shape NL NR T'
          \<and> (\<forall>l. 0 \<le> l \<and> l \<le> NL \<longrightarrow> cell_at T' l 0 = \<lparr>op = Delete, length_cell = 0\<rparr>)"
proof -
  let ?c = "\<lparr>op = Delete, length_cell = 0\<rparr>"
  let ?I = "\<lambda>i T. shape NL NR T \<and> (\<forall>l. 0 \<le> l \<and> l < i \<longrightarrow> cell_at T l 0 = ?c)"
  have "\<exists>T'. for_each [0..NL] (\<lambda>lidx table. set_cell table lidx 0 ?c) T = Inr T' \<and> ?I (NL + 1) T'"
  proof (rule for_each_upto[where I = ?I])
    show "?I 0 T" using sh by auto
    show "0 \<le> NL + 1" using NL by simp
    show "\<exists>s'. set_cell s i 0 ?c = Inr s' \<and> ?I (i + 1) s'" if "0 \<le> i" "i \<le> NL" "?I i s" for i s
    proof -
      from that have shs: "shape NL NR s" by simp
      from shape_set[OF shs that(1,2) order_refl NR, of ?c]
      obtain s' where s': "set_cell s i 0 ?c = Inr s'" "shape NL NR s'"
        and upd: "\<And>l' r'. 0 \<le> l' \<Longrightarrow> l' \<le> NL \<Longrightarrow> 0 \<le> r' \<Longrightarrow> r' \<le> NR \<Longrightarrow>
              cell_at s' l' r' = (if l' = i \<and> r' = 0 then ?c else cell_at s l' r')"
        by auto
      have "cell_at s' l 0 = ?c" if l: "0 \<le> l" "l < i + 1" for l
        using upd[of l 0] l that NR \<open>i \<le> NL\<close> \<open>?I i s\<close> by auto
      with s' show ?thesis by blast
    qed
  qed
  moreover have "range_of T = [0..NL]" using sh by (simp add: range_of_def shape_def)
  ultimately show ?thesis by auto
qed

lemma init_inserts_inv:
  assumes NL: "0 \<le> NL" and NR: "0 \<le> NR" and sh: "shape NL NR T"
    and del: "\<forall>l. 0 \<le> l \<and> l \<le> NL \<longrightarrow> cell_at T l 0 = \<lparr>op = Delete, length_cell = 0\<rparr>"
  shows "\<exists>T'. for_each (range_of (T ! 0))
            (\<lambda>ridx table. set_cell table 0 ridx \<lparr>op = Insert, length_cell = 0\<rparr>) T = Inr T'
          \<and> shape NL NR T'
          \<and> (\<forall>l. 0 < l \<and> l \<le> NL \<longrightarrow> cell_at T' l 0 = \<lparr>op = Delete, length_cell = 0\<rparr>)
          \<and> (\<forall>r. 0 \<le> r \<and> r \<le> NR \<longrightarrow> cell_at T' 0 r = \<lparr>op = Insert, length_cell = 0\<rparr>)"
proof -
  let ?c = "\<lparr>op = Insert, length_cell = 0\<rparr>" and ?d = "\<lparr>op = Delete, length_cell = 0\<rparr>"
  let ?I = "\<lambda>j T. shape NL NR T \<and> (\<forall>l. 0 < l \<and> l \<le> NL \<longrightarrow> cell_at T l 0 = ?d)
              \<and> (\<forall>r. 0 \<le> r \<and> r < j \<longrightarrow> cell_at T 0 r = ?c)"
  have "\<exists>T'. for_each [0..NR] (\<lambda>ridx table. set_cell table 0 ridx ?c) T = Inr T' \<and> ?I (NR + 1) T'"
  proof (rule for_each_upto[where I = ?I])
    show "?I 0 T" using sh del by auto
    show "0 \<le> NR + 1" using NR by simp
    show "\<exists>s'. set_cell s 0 j ?c = Inr s' \<and> ?I (j + 1) s'" if "0 \<le> j" "j \<le> NR" "?I j s" for j s
    proof -
      from that have shs: "shape NL NR s" by simp
      from shape_set[OF shs order_refl NL that(1,2), of ?c]
      obtain s' where s': "set_cell s 0 j ?c = Inr s'" "shape NL NR s'"
        and upd: "\<And>l' r'. 0 \<le> l' \<Longrightarrow> l' \<le> NL \<Longrightarrow> 0 \<le> r' \<Longrightarrow> r' \<le> NR \<Longrightarrow>
              cell_at s' l' r' = (if l' = 0 \<and> r' = j then ?c else cell_at s l' r')"
        by auto
      have a: "cell_at s' l 0 = ?d" if l: "0 < l" "l \<le> NL" for l
        using upd[of l 0] l NR \<open>?I j s\<close> by auto
      have b: "cell_at s' 0 r = ?c" if r: "0 \<le> r" "r < j + 1" for r
        using upd[of 0 r] r NL \<open>j \<le> NR\<close> \<open>?I j s\<close> by auto
      from s' a b show ?thesis by blast
    qed
  qed
  moreover have "range_of (T ! 0) = [0..NR]"
  proof -
    have "int (length (T ! nat 0)) = NR + 1" using sh NL unfolding shape_def by blast
    then show ?thesis by (simp add: range_of_def)
  qed
  ultimately show ?thesis by auto
qed

lemma build_table_inv:
  assumes NL: "0 \<le> LeftLen iface" and NR: "0 \<le> RightLen iface"
  shows "\<exists>T. build_table iface = Inr T \<and> tab_inv iface (LeftLen iface + 1) 1 T"
proof -
  let ?NL = "LeftLen iface" and ?NR = "RightLen iface"
  let ?T0 = "replicate (nat (?NL + 1)) ([] :: cell list)"
  have m: "make_slice (?NL + 1) ([] :: cell list) = Inr ?T0"
    using NL by (simp add: make_slice_def)
  have "int (length ?T0) = ?NL + 1" using NL by simp
  from alloc_rows_inv[OF NL NR this] obtain T1 where
    T1: "for_each (range_of ?T0)
            (\<lambda>lidx table. case make_slice (?NR + 1) \<lparr>op = noOp, length_cell = 0\<rparr> of
                Inl e \<Rightarrow> Inl e | Inr row \<Rightarrow> set_row table lidx row) ?T0 = Inr T1"
    and sh1: "shape ?NL ?NR T1" by blast
  from init_deletes_inv[OF NL NR sh1] obtain T2 where
    T2: "for_each (range_of T1)
            (\<lambda>lidx table. set_cell table lidx 0 \<lparr>op = Delete, length_cell = 0\<rparr>) T1 = Inr T2"
    and sh2: "shape ?NL ?NR T2"
    and del2: "\<forall>l. 0 \<le> l \<and> l \<le> ?NL \<longrightarrow> cell_at T2 l 0 = \<lparr>op = Delete, length_cell = 0\<rparr>"
    by blast
  have ne: "T2 \<noteq> []" using sh2 NL by (auto simp: shape_def)
  from init_inserts_inv[OF NL NR sh2 del2] obtain T3 where
    T3: "for_each (range_of (T2 ! 0))
            (\<lambda>ridx table. set_cell table 0 ridx \<lparr>op = Insert, length_cell = 0\<rparr>) T2 = Inr T3"
    and sh3: "shape ?NL ?NR T3"
    and del3: "\<forall>l. 0 < l \<and> l \<le> ?NL \<longrightarrow> cell_at T3 l 0 = \<lparr>op = Delete, length_cell = 0\<rparr>"
    and ins3: "\<forall>r. 0 \<le> r \<and> r \<le> ?NR \<longrightarrow> cell_at T3 0 r = \<lparr>op = Insert, length_cell = 0\<rparr>"
    by blast
  from shape_set[OF sh3 order_refl NL order_refl NR, of "\<lparr>op = Match, length_cell = 0\<rparr>"]
  obtain T4 where T4: "set_cell T3 0 0 \<lparr>op = Match, length_cell = 0\<rparr> = Inr T4"
    and sh4: "shape ?NL ?NR T4"
    and upd: "\<And>l' r'. 0 \<le> l' \<Longrightarrow> l' \<le> ?NL \<Longrightarrow> 0 \<le> r' \<Longrightarrow> r' \<le> ?NR \<Longrightarrow>
              cell_at T4 l' r' = (if l' = 0 \<and> r' = 0 then \<lparr>op = Match, length_cell = 0\<rparr>
                                  else cell_at T3 l' r')"
    by auto
  have "cell_at T4 l r = dp_cell (Equal iface) l r"
    if "0 \<le> l" "l \<le> ?NL" "0 \<le> r" "r \<le> ?NR" "filled 1 1 l r" for l r
  proof -
    from that(1,3,5) consider "l = 0" "r = 0" | "0 < l" "r = 0" | "l = 0" "0 < r"
      unfolding filled_def by atomize_elim arith
    then show ?thesis
    proof cases
      case 1
      then show ?thesis using upd[OF that(1-4)] by (simp add: dp_cell_base)
    next
      case 2
      then show ?thesis using upd[OF that(1-4)] del3 that by (simp add: dp_cell_base)
    next
      case 3
      then show ?thesis using upd[OF that(1-4)] ins3 that by (simp add: dp_cell_base)
    qed
  qed
  then have "tab_inv iface 1 1 T4" using sh4 by (simp add: tab_inv_def)
  from fill_table_inv[OF this NL NR] obtain T5 where
    T5: "for_each [1..?NL]
            (\<lambda>lidx table. for_each [1..?NR] (\<lambda>ridx table. fill_step iface lidx ridx table) table) T4
          = Inr T5" and inv5: "tab_inv iface (?NL + 1) 1 T5" by blast
  have "build_table iface = Inr T5"
    unfolding build_table_def Let_def by (simp add: m T1 T2 ne T3 T4 T5)
  with inv5 show ?thesis by blast
qed

lemma build_table_cells:
  assumes NL: "0 \<le> LeftLen iface" and NR: "0 \<le> RightLen iface"
  shows "\<exists>T. build_table iface = Inr T \<and>
           (\<forall>l r. 0 \<le> l \<and> l \<le> LeftLen iface \<and> 0 \<le> r \<and> r \<le> RightLen iface \<longrightarrow>
              get_cell T l r = Inr (dp_cell (Equal iface) l r))"
proof -
  from build_table_inv[OF assms] obtain T where
    T: "build_table iface = Inr T" "tab_inv iface (LeftLen iface + 1) 1 T" by blast
  have "get_cell T l r = Inr (dp_cell (Equal iface) l r)"
    if "0 \<le> l" "l \<le> LeftLen iface" "0 \<le> r" "r \<le> RightLen iface" for l r
  proof -
    have "filled (LeftLen iface + 1) 1 l r" using that by (simp add: filled_def)
    then have "cell_at T l r = dp_cell (Equal iface) l r"
      using T(2) that by (simp add: tab_inv_def)
    moreover have "get_cell T l r = Inr (cell_at T l r)"
      using T(2) that by (intro shape_get) (auto simp: tab_inv_def)
    ultimately show ?thesis by simp
  qed
  with T(1) show ?thesis by blast
qed

section \<open>The backward trace\<close>

lemma dp_cell_not_noOp: "op (dp_cell eq l r) \<noteq> noOp"
  by (subst dp_cell.simps) simp

lemma dp_cell_step:
  "0 < l \<Longrightarrow> 0 < r \<Longrightarrow> dp_cell eq l r =
     (if eq (l - 1) (r - 1)
        then \<lparr>op = Match, length_cell = length_cell (dp_cell eq (l - 1) (r - 1)) + 1\<rparr>
      else if length_cell (dp_cell eq l (r - 1)) < length_cell (dp_cell eq (l - 1) r)
        then \<lparr>op = Delete, length_cell = length_cell (dp_cell eq (l - 1) r)\<rparr>
      else \<lparr>op = Insert, length_cell = length_cell (dp_cell eq l (r - 1))\<rparr>)"
  by (subst dp_cell.simps) simp

lemma dp_cell_edge_length: "l \<le> 0 \<or> r \<le> 0 \<Longrightarrow> length_cell (dp_cell eq l r) = 0"
  by (subst dp_cell.simps) auto

lemma dp_cell_Match:
  assumes "op (dp_cell eq l r) = Match" "0 \<le> l" "0 \<le> r" "0 < l \<or> 0 < r"
  shows "0 < l" "0 < r" "eq (l - 1) (r - 1)"
    "length_cell (dp_cell eq l r) = length_cell (dp_cell eq (l - 1) (r - 1)) + 1"
proof -
  have pos: "0 < l \<and> 0 < r"
  proof (rule ccontr)
    assume "\<not> (0 < l \<and> 0 < r)"
    then consider "l = 0" "0 < r" | "0 < l" "r = 0" using assms(2-4) by atomize_elim arith
    then show False using assms(1) by cases (simp_all add: dp_cell_base)
  qed
  then show "0 < l" "0 < r" by simp_all
  from pos assms(1) show "eq (l - 1) (r - 1)"
    by (simp add: dp_cell_step split: if_splits)
  then show "length_cell (dp_cell eq l r) = length_cell (dp_cell eq (l - 1) (r - 1)) + 1"
    using pos by (simp add: dp_cell_step)
qed

lemma dp_cell_Delete:
  assumes "op (dp_cell eq l r) = Delete" "0 \<le> l" "0 \<le> r"
  shows "0 < l" "length_cell (dp_cell eq l r) = length_cell (dp_cell eq (l - 1) r)"
proof -
  show l: "0 < l"
  proof (rule ccontr)
    assume "\<not> 0 < l"
    then have "l = 0" using assms(2) by simp
    then show False using assms(1,3) by (cases "r = 0") (simp_all add: dp_cell_base)
  qed
  show "length_cell (dp_cell eq l r) = length_cell (dp_cell eq (l - 1) r)"
  proof (cases "r = 0")
    case True
    then show ?thesis by (simp add: dp_cell_edge_length)
  next
    case False
    then have "0 < r" using assms(3) by simp
    then show ?thesis using l assms(1) by (simp add: dp_cell_step split: if_splits)
  qed
qed

lemma dp_cell_Insert:
  assumes "op (dp_cell eq l r) = Insert" "0 \<le> l" "0 \<le> r"
  shows "0 < r" "length_cell (dp_cell eq l r) = length_cell (dp_cell eq l (r - 1))"
proof -
  show r: "0 < r"
  proof (rule ccontr)
    assume "\<not> 0 < r"
    then have "r = 0" using assms(3) by simp
    then show False using assms(1,2) by (cases "l = 0") (simp_all add: dp_cell_base)
  qed
  show "length_cell (dp_cell eq l r) = length_cell (dp_cell eq l (r - 1))"
  proof (cases "l = 0")
    case True
    then show ?thesis by (simp add: dp_cell_edge_length)
  next
    case False
    then have "0 < l" using assms(2) by simp
    then show ?thesis using r assms(1) by (simp add: dp_cell_step split: if_splits)
  qed
qed

lemma trace_rule:
  assumes cells: "\<And>l r. 0 \<le> l \<Longrightarrow> l \<le> NL \<Longrightarrow> 0 \<le> r \<Longrightarrow> r \<le> NR \<Longrightarrow>
                    get_cell T l r = Inr (dp_cell eq l r)"
    and M: "\<And>l r st. 0 < l \<Longrightarrow> l \<le> NL \<Longrightarrow> 0 < r \<Longrightarrow> r \<le> NR \<Longrightarrow> I l r st \<Longrightarrow>
              op (dp_cell eq l r) = Match \<Longrightarrow> I (l - 1) (r - 1) (record_diff Match l r st)"
    and D: "\<And>l r st. 0 < l \<Longrightarrow> l \<le> NL \<Longrightarrow> 0 \<le> r \<Longrightarrow> r \<le> NR \<Longrightarrow> I l r st \<Longrightarrow>
              op (dp_cell eq l r) = Delete \<Longrightarrow> I (l - 1) r (record_diff Delete l r st)"
    and N: "\<And>l r st. 0 \<le> l \<Longrightarrow> l \<le> NL \<Longrightarrow> 0 < r \<Longrightarrow> r \<le> NR \<Longrightarrow> I l r st \<Longrightarrow>
              op (dp_cell eq l r) = Insert \<Longrightarrow> I l (r - 1) (record_diff Insert l r st)"
    and start: "I l r st" "0 \<le> l" "l \<le> NL" "0 \<le> r" "r \<le> NR"
  shows "\<exists>st'. trace T l r st = Inr st' \<and> I 0 0 st'"
  using start
proof (induction "nat (l + r)" arbitrary: l r st rule: less_induct)
  case less
  show ?case
  proof (cases "0 < l \<or> 0 < r")
    case False
    then have "l = 0" "r = 0" using less.prems by auto
    then show ?thesis using less.prems(1) by (simp add: trace.simps)
  next
    case True
    let ?c = "dp_cell eq l r"
    have g: "get_cell T l r = Inr ?c" using less.prems by (intro cells)
    show ?thesis
    proof (cases "op ?c")
      case noOp
      then show ?thesis using dp_cell_not_noOp[of eq l r] by simp
    next
      case Match
      note mm = dp_cell_Match[OF Match less.prems(2,4) True]
      have "I (l - 1) (r - 1) (record_diff Match l r st)"
        using M[OF mm(1) less.prems(3) mm(2) less.prems(5) less.prems(1) Match] .
      from less.hyps[OF _ this] mm less.prems
      have "\<exists>st'. trace T (l - 1) (r - 1) (record_diff Match l r st) = Inr st' \<and> I 0 0 st'"
        by auto
      then show ?thesis using True g Match by (subst trace.simps) simp
    next
      case Delete
      note dd = dp_cell_Delete[OF Delete less.prems(2,4)]
      have "I (l - 1) r (record_diff Delete l r st)"
        using D[OF dd(1) less.prems(3,4,5,1) Delete] .
      from less.hyps[OF _ this] dd less.prems
      have "\<exists>st'. trace T (l - 1) r (record_diff Delete l r st) = Inr st' \<and> I 0 0 st'"
        by auto
      then show ?thesis using True g Delete by (subst trace.simps) simp
    next
      case Insert
      note ii = dp_cell_Insert[OF Insert less.prems(2,4)]
      have "I l (r - 1) (record_diff Insert l r st)"
        using N[OF less.prems(2,3) ii(1) less.prems(5,1) Insert] .
      from less.hyps[OF _ this] ii less.prems
      have "\<exists>st'. trace T l (r - 1) (record_diff Insert l r st) = Inr st' \<and> I 0 0 st'"
        by auto
      then show ?thesis using True g Insert by (subst trace.simps) simp
    qed
  qed
qed

lemma match_total_Cons:
  "match_total (d # ds) = (if Op d = Match then Lend d - Lstart d else 0) + match_total ds"
  by (simp add: match_total_def Len_def)

lemma valid_diff_Match_extend:
  assumes "valid_diff eq d" "Op d = Match" "Lstart d = l" "Rstart d = r" "eq (l - 1) (r - 1)"
  shows "valid_diff eq (d\<lparr>Lstart := l - 1, Rstart := r - 1\<rparr>)"
proof -
  have "eq (l - 1 + i) (r - 1 + i)" if "0 \<le> i" "i < Lend d - (l - 1)" for i
  proof (cases "i = 0")
    case True
    then show ?thesis using assms(5) by simp
  next
    case False
    then have "0 \<le> i - 1" "i - 1 < Lend d - Lstart d" using that assms(3) by auto
    then have "eq (Lstart d + (i - 1)) (Rstart d + (i - 1))"
      using assms(1,2) by (simp add: valid_diff_def)
    then show ?thesis using assms(3,4) by (simp add: algebra_simps)
  qed
  then show ?thesis using assms(1-4) by (auto simp: valid_diff_def)
qed

lemma valid_diff_Match_single:
  assumes "eq (l - 1) (r - 1)"
  shows "valid_diff eq \<lparr>Op = Match, Lstart = l - 1, Lend = l, Rstart = r - 1, Rend = r\<rparr>"
proof -
  have "\<forall>i. 0 \<le> i \<and> i < l - (l - 1) \<longrightarrow> eq (l - 1 + i) (r - 1 + i)"
  proof (intro allI impI)
    fix i :: int
    assume "0 \<le> i \<and> i < l - (l - 1)"
    then have "i = 0" by simp
    then show "eq (l - 1 + i) (r - 1 + i)" using assms by simp
  qed
  then show ?thesis by (simp add: valid_diff_def)
qed

lemma record_diff_pair:
  "record_diff opr l r (diffs, ld) =
     (if opr \<noteq> Op ld
      then (diffs @ [ld\<lparr>Lstart := l, Rstart := r\<rparr>],
            \<lparr>Op = opr, Lstart = l, Lend = l, Rstart = r, Rend = r\<rparr>)
      else (diffs, ld\<lparr>Lstart := l, Rstart := r\<rparr>))"
  by (simp add: record_diff_def Let_def)

lemma trace_inv_Match:
  assumes inv: "trace_inv iface l r st" and m: "op (dp_cell (Equal iface) l r) = Match"
    and pos: "0 \<le> l" "0 \<le> r" "0 < l \<or> 0 < r"
  shows "trace_inv iface (l - 1) (r - 1) (record_diff Match l r st)"
proof -
  obtain diffs ld where st: "st = (diffs, ld)" by (cases st)
  let ?eq = "Equal iface"
  let ?cur = "ld\<lparr>Lstart := l, Rstart := r\<rparr>"
  note mm = dp_cell_Match[OF m pos]
  from inv st have ch: "valid_diff ?eq ?cur"
    "chain ?eq (Lend ld) (Rend ld) (LeftLen iface) (RightLen iface) (rev diffs)"
    and da: "distinct_adj (map Op (?cur # rev diffs))"
    and mt: "match_total (?cur # rev diffs) + length_cell (dp_cell ?eq l r)
              = length_cell (dp_cell ?eq (LeftLen iface) (RightLen iface))"
    by (simp_all add: trace_inv_def pending_def)
  show ?thesis
  proof (cases "Op ld = Match")
    case True
    have v: "valid_diff ?eq (?cur\<lparr>Lstart := l - 1, Rstart := r - 1\<rparr>)"
      using ch(1) True mm(3) by (intro valid_diff_Match_extend) simp_all
    show ?thesis
      using True v ch(2) da mt mm(4) st
      by (simp add: trace_inv_def pending_def record_diff_pair match_total_Cons)
  next
    case False
    have v: "valid_diff ?eq \<lparr>Op = Match, Lstart = l - 1, Lend = l, Rstart = r - 1, Rend = r\<rparr>"
      using mm(3) by (rule valid_diff_Match_single)
    have e: "ld\<lparr>Op := Match, Lstart := l - 1, Lend := l, Rstart := r - 1, Rend := r\<rparr>
              = \<lparr>Op = Match, Lstart = l - 1, Lend = l, Rstart = r - 1, Rend = r\<rparr>"
      by simp
    show ?thesis
      using False v ch da mt mm(4) st
      by (simp add: trace_inv_def pending_def record_diff_pair match_total_Cons)
  qed
qed

lemma trace_inv_Delete:
  assumes inv: "trace_inv iface l r st" and m: "op (dp_cell (Equal iface) l r) = Delete"
    and pos: "0 \<le> l" "0 \<le> r"
  shows "trace_inv iface (l - 1) r (record_diff Delete l r st)"
proof -
  obtain diffs ld where st: "st = (diffs, ld)" by (cases st)
  let ?eq = "Equal iface"
  let ?cur = "ld\<lparr>Lstart := l, Rstart := r\<rparr>"
  note dd = dp_cell_Delete[OF m pos]
  from inv st have ch: "valid_diff ?eq ?cur"
    "chain ?eq (Lend ld) (Rend ld) (LeftLen iface) (RightLen iface) (rev diffs)"
    and da: "distinct_adj (map Op (?cur # rev diffs))"
    and mt: "match_total (?cur # rev diffs) + length_cell (dp_cell ?eq l r)
              = length_cell (dp_cell ?eq (LeftLen iface) (RightLen iface))"
    by (simp_all add: trace_inv_def pending_def)
  show ?thesis
  proof (cases "Op ld = Delete")
    case True
    have v: "valid_diff ?eq (ld\<lparr>Lstart := l - 1, Rstart := r\<rparr>)"
      using ch(1) True by (auto simp: valid_diff_def)
    show ?thesis
      using True v ch(2) da mt dd(2) st
      by (simp add: trace_inv_def pending_def record_diff_pair match_total_Cons)
  next
    case False
    have v: "valid_diff ?eq \<lparr>Op = Delete, Lstart = l - 1, Lend = l, Rstart = r, Rend = r\<rparr>"
      by (simp add: valid_diff_def)
    show ?thesis
      using False v ch da mt dd(2) st
      by (simp add: trace_inv_def pending_def record_diff_pair match_total_Cons)
  qed
qed

lemma trace_inv_Insert:
  assumes inv: "trace_inv iface l r st" and m: "op (dp_cell (Equal iface) l r) = Insert"
    and pos: "0 \<le> l" "0 \<le> r"
  shows "trace_inv iface l (r - 1) (record_diff Insert l r st)"
proof -
  obtain diffs ld where st: "st = (diffs, ld)" by (cases st)
  let ?eq = "Equal iface"
  let ?cur = "ld\<lparr>Lstart := l, Rstart := r\<rparr>"
  note ii = dp_cell_Insert[OF m pos]
  from inv st have ch: "valid_diff ?eq ?cur"
    "chain ?eq (Lend ld) (Rend ld) (LeftLen iface) (RightLen iface) (rev diffs)"
    and da: "distinct_adj (map Op (?cur # rev diffs))"
    and mt: "match_total (?cur # rev diffs) + length_cell (dp_cell ?eq l r)
              = length_cell (dp_cell ?eq (LeftLen iface) (RightLen iface))"
    by (simp_all add: trace_inv_def pending_def)
  show ?thesis
  proof (cases "Op ld = Insert")
    case True
    have v: "valid_diff ?eq (ld\<lparr>Lstart := l, Rstart := r - 1\<rparr>)"
      using ch(1) True by (auto simp: valid_diff_def)
    show ?thesis
      using True v ch(2) da mt ii(2) st
      by (simp add: trace_inv_def pending_def record_diff_pair match_total_Cons)
  next
    case False
    have v: "valid_diff ?eq \<lparr>Op = Insert, Lstart = l, Lend = l, Rstart = r - 1, Rend = r\<rparr>"
      by (simp add: valid_diff_def)
    show ?thesis
      using False v ch da mt ii(2) st
      by (simp add: trace_inv_def pending_def record_diff_pair match_total_Cons)
  qed
qed

lemma trace_inv_start:
  assumes "0 \<le> LeftLen iface" "0 \<le> RightLen iface"
  shows "trace_inv iface (LeftLen iface) (RightLen iface)
           ([], \<lparr>Op = op (dp_cell (Equal iface) (LeftLen iface) (RightLen iface)),
                 Lstart = LeftLen iface, Lend = LeftLen iface,
                 Rstart = RightLen iface, Rend = RightLen iface\<rparr>)"
  using dp_cell_not_noOp[of "Equal iface" "LeftLen iface" "RightLen iface"]
  by (cases "op (dp_cell (Equal iface) (LeftLen iface) (RightLen iface))")
     (auto simp: trace_inv_def pending_def valid_diff_def match_total_def Len_def)

lemma Make_script:
  assumes NL: "0 \<le> LeftLen iface" and NR: "0 \<le> RightLen iface"
  shows "\<exists>ds. Make iface = Inr ds \<and> ds \<noteq> [] \<and>
           chain (Equal iface) 0 0 (LeftLen iface) (RightLen iface) ds \<and>
           distinct_adj (map Op ds) \<and>
           match_total ds = length_cell (dp_cell (Equal iface) (LeftLen iface) (RightLen iface))"
proof -
  let ?NL = "LeftLen iface" and ?NR = "RightLen iface" and ?eq = "Equal iface"
  from build_table_cells[OF NL NR] obtain T where
    T: "build_table iface = Inr T"
    and cells: "\<And>l r. 0 \<le> l \<Longrightarrow> l \<le> ?NL \<Longrightarrow> 0 \<le> r \<Longrightarrow> r \<le> ?NR \<Longrightarrow>
                  get_cell T l r = Inr (dp_cell ?eq l r)"
    by blast
  let ?st0 = "([], \<lparr>Op = op (dp_cell ?eq ?NL ?NR), Lstart = ?NL, Lend = ?NL,
                     Rstart = ?NR, Rend = ?NR\<rparr>)"
  have "\<exists>st'. trace T ?NL ?NR ?st0 = Inr st' \<and> trace_inv iface 0 0 st'"
  proof (rule trace_rule[where I = "trace_inv iface" and eq = ?eq and NL = ?NL and NR = ?NR])
    show "get_cell T l r = Inr (dp_cell ?eq l r)"
      if "0 \<le> l" "l \<le> ?NL" "0 \<le> r" "r \<le> ?NR" for l r using that by (rule cells)
    show "trace_inv iface ?NL ?NR ?st0" using NL NR by (rule trace_inv_start)
    show "trace_inv iface (l - 1) (r - 1) (record_diff Match l r st)"
      if "0 < l" "0 < r" "trace_inv iface l r st" "op (dp_cell ?eq l r) = Match" for l r st
      using that by (intro trace_inv_Match) auto
    show "trace_inv iface (l - 1) r (record_diff Delete l r st)"
      if "0 < l" "0 \<le> r" "trace_inv iface l r st" "op (dp_cell ?eq l r) = Delete" for l r st
      using that by (intro trace_inv_Delete) auto
    show "trace_inv iface l (r - 1) (record_diff Insert l r st)"
      if "0 \<le> l" "0 < r" "trace_inv iface l r st" "op (dp_cell ?eq l r) = Insert" for l r st
      using that by (intro trace_inv_Insert) auto
  qed (use NL NR in simp_all)
  then obtain st' where st': "trace T ?NL ?NR ?st0 = Inr st'" "trace_inv iface 0 0 st'" by blast
  obtain diffs ld where sd: "st' = (diffs, ld)" by (cases st')
  from st'(2) sd have v: "valid_diff ?eq (ld\<lparr>Lstart := 0, Rstart := 0\<rparr>)"
    by (simp add: trace_inv_def pending_def)
  then have "Op ld \<noteq> noOp" by (auto simp: valid_diff_def)
  then have out: "rev (fst (record_diff noOp 0 0 st')) = pending 0 0 st'"
    using sd by (simp add: record_diff_pair pending_def)
  have "Make iface = Inr (pending 0 0 st')"
    using T cells[OF NL order_refl NR order_refl] st'(1) out
    by (simp add: Make_def)
  moreover have "length_cell (dp_cell ?eq 0 0) = 0" by (simp add: dp_cell_base)
  moreover have "pending 0 0 st' \<noteq> []" by (simp add: pending_def)
  ultimately show ?thesis using st'(2) by (simp add: trace_inv_def)
qed

section \<open>Longest common subsequences\<close>








section \<open>Properties of chained scripts\<close>





















section \<open>Compaction\<close>









lemma Compact_not_idempotent_in_general:
  "Compact (Compact [\<lparr>Op = Match, Lstart = 0, Lend = 3, Rstart = 0, Rend = 3\<rparr>,
                     \<lparr>Op = Match, Lstart = 3, Lend = 6, Rstart = 3, Rend = 6\<rparr>] 1) 1
   \<noteq> Compact [\<lparr>Op = Match, Lstart = 0, Lend = 3, Rstart = 0, Rend = 3\<rparr>,
               \<lparr>Op = Match, Lstart = 3, Lend = 6, Rstart = 3, Rend = 6\<rparr>] 1"
  by code_simp

section \<open>Identical sequences\<close>

lemma dp_cell_diag:
  assumes "0 \<le> l" "0 < l \<longrightarrow> eq (l - 1) (l - 1)"
  shows "op (dp_cell eq l l) = Match"
proof (cases "l = 0")
  case True
  then show ?thesis by (simp add: dp_cell_base)
next
  case False
  then show ?thesis using assms by (simp add: dp_cell_step)
qed

lemma Make_diagonal:
  assumes len: "RightLen iface = LeftLen iface" and NL: "0 \<le> LeftLen iface"
    and refl: "\<And>i. 0 \<le> i \<Longrightarrow> i < LeftLen iface \<Longrightarrow> Equal iface i i"
  shows "Make iface = Inr [\<lparr>Op = Match, Lstart = 0, Lend = LeftLen iface,
                            Rstart = 0, Rend = LeftLen iface\<rparr>]"
proof -
  let ?n = "LeftLen iface" and ?eq = "Equal iface"
  have NR: "0 \<le> RightLen iface" using len NL by simp
  from build_table_cells[OF NL NR] obtain T where
    T: "build_table iface = Inr T"
    and cells: "\<And>l r. 0 \<le> l \<Longrightarrow> l \<le> ?n \<Longrightarrow> 0 \<le> r \<Longrightarrow> r \<le> ?n \<Longrightarrow>
                  get_cell T l r = Inr (dp_cell ?eq l r)"
    using len by auto
  have diag: "op (dp_cell ?eq l l) = Match" if "0 \<le> l" "l \<le> ?n" for l
    using that refl[of "l - 1"] by (intro dp_cell_diag) auto
  let ?st0 = "([], \<lparr>Op = op (dp_cell ?eq ?n ?n), Lstart = ?n, Lend = ?n, Rstart = ?n, Rend = ?n\<rparr>)"
  have "\<exists>st'. trace T ?n ?n ?st0 = Inr st' \<and> diag_inv ?n 0 0 st'"
  proof (rule trace_rule[where I = "diag_inv ?n" and eq = ?eq and NL = ?n and NR = ?n])
    show "get_cell T l r = Inr (dp_cell ?eq l r)"
      if "0 \<le> l" "l \<le> ?n" "0 \<le> r" "r \<le> ?n" for l r using that by (rule cells)
    show "diag_inv ?n ?n ?n ?st0" using diag[OF NL order_refl] by (simp add: diag_inv_def)
    show "diag_inv ?n (l - 1) (r - 1) (record_diff Match l r st)" if "diag_inv ?n l r st" for l r st
      using that by (cases st) (simp add: record_diff_pair diag_inv_def)
    show "diag_inv ?n (l - 1) r (record_diff Delete l r st)"
      if "0 < l" "l \<le> ?n" "diag_inv ?n l r st" "op (dp_cell ?eq l r) = Delete" for l r st
      using that diag[of l] by (simp add: diag_inv_def)
    show "diag_inv ?n l (r - 1) (record_diff Insert l r st)"
      if "0 < r" "r \<le> ?n" "diag_inv ?n l r st" "op (dp_cell ?eq l r) = Insert" for l r st
      using that diag[of r] by (simp add: diag_inv_def)
  qed (use NL in simp_all)
  then obtain st' where st': "trace T ?n ?n ?st0 = Inr st'" "diag_inv ?n 0 0 st'" by blast
  obtain diffs ld where sd: "st' = (diffs, ld)" by (cases st')
  have "rev (fst (record_diff noOp 0 0 st'))
          = [\<lparr>Op = Match, Lstart = 0, Lend = ?n, Rstart = 0, Rend = ?n\<rparr>]"
    using st'(2) sd by (cases ld) (simp add: record_diff_pair diag_inv_def)
  then show ?thesis
    using T cells[OF NL order_refl NL order_refl] st'(1) len
    by (simp add: Make_def Let_def)
qed

section \<open>Negative lengths\<close>



section \<open>Well-formed scripts\<close>


lemma valid_diff_wf: "valid_diff eq d \<Longrightarrow> wf_diff d"
  by (cases "Op d") (auto simp: valid_diff_def wf_diff_def)

lemma chain_linked: "chain eq l r NL NR ds \<Longrightarrow> linked l r NL NR ds"
  by (induction ds arbitrary: l r) (auto intro: valid_diff_wf)

lemma Make_well_formed:
  assumes "0 \<le> LeftLen iface" and "0 \<le> RightLen iface"
  shows "\<exists>ds. Make iface = Inr ds \<and> well_formed (LeftLen iface) (RightLen iface) ds"
proof -
  from Make_script[OF assms] obtain ds where ds: "Make iface = Inr ds"
    and ch: "chain (Equal iface) 0 0 (LeftLen iface) (RightLen iface) ds"
    and da: "distinct_adj (map Op ds)" by blast
  from chain_linked[OF ch] da have "well_formed (LeftLen iface) (RightLen iface) ds"
    by (simp add: well_formed_def)
  with ds show ?thesis by blast
qed


section \<open>The tests of the package\<close>

text \<open>The model returns what \<^verbatim>\<open>TestMake\<close> and \<^verbatim>\<open>TestCompact\<close> (context length 2) expect, case by case.\<close>

lemma TestMake_cases:
  "Make (testcase ''a'' []) = Inr [\<lparr>Op = Delete, Lstart = 0, Lend = 1, Rstart = 0, Rend = 0\<rparr>]"
  "Make (testcase [] ''a'') = Inr [\<lparr>Op = Insert, Lstart = 0, Lend = 0, Rstart = 0, Rend = 1\<rparr>]"
  "Make (testcase ''aaa'' ''bbb'') =
     Inr [\<lparr>Op = Delete, Lstart = 0, Lend = 3, Rstart = 0, Rend = 0\<rparr>,
          \<lparr>Op = Insert, Lstart = 3, Lend = 3, Rstart = 0, Rend = 3\<rparr>]"
  "Make (testcase ''aBce'' ''acDe'') =
     Inr [\<lparr>Op = Match, Lstart = 0, Lend = 1, Rstart = 0, Rend = 1\<rparr>,
          \<lparr>Op = Delete, Lstart = 1, Lend = 2, Rstart = 1, Rend = 1\<rparr>,
          \<lparr>Op = Match, Lstart = 2, Lend = 3, Rstart = 1, Rend = 2\<rparr>,
          \<lparr>Op = Insert, Lstart = 3, Lend = 3, Rstart = 2, Rend = 3\<rparr>,
          \<lparr>Op = Match, Lstart = 3, Lend = 4, Rstart = 3, Rend = 4\<rparr>]"
  "Make (testcase ''aaabbbccceee'' ''aaacccDDDeee'') =
     Inr [\<lparr>Op = Match, Lstart = 0, Lend = 3, Rstart = 0, Rend = 3\<rparr>,
          \<lparr>Op = Delete, Lstart = 3, Lend = 6, Rstart = 3, Rend = 3\<rparr>,
          \<lparr>Op = Match, Lstart = 6, Lend = 9, Rstart = 3, Rend = 6\<rparr>,
          \<lparr>Op = Insert, Lstart = 9, Lend = 9, Rstart = 6, Rend = 9\<rparr>,
          \<lparr>Op = Match, Lstart = 9, Lend = 12, Rstart = 9, Rend = 12\<rparr>]"
  "Make (testcase ''bbbCCCddd'' ''CCCeee'') =
     Inr [\<lparr>Op = Delete, Lstart = 0, Lend = 3, Rstart = 0, Rend = 0\<rparr>,
          \<lparr>Op = Match, Lstart = 3, Lend = 6, Rstart = 0, Rend = 3\<rparr>,
          \<lparr>Op = Delete, Lstart = 6, Lend = 9, Rstart = 3, Rend = 3\<rparr>,
          \<lparr>Op = Insert, Lstart = 9, Lend = 9, Rstart = 3, Rend = 6\<rparr>]"
  "Make (testcase ''AbbbbbbbCdddddddE'' ''bbbbbbbddddddd'') =
     Inr [\<lparr>Op = Delete, Lstart = 0, Lend = 1, Rstart = 0, Rend = 0\<rparr>,
          \<lparr>Op = Match, Lstart = 1, Lend = 8, Rstart = 0, Rend = 7\<rparr>,
          \<lparr>Op = Delete, Lstart = 8, Lend = 9, Rstart = 7, Rend = 7\<rparr>,
          \<lparr>Op = Match, Lstart = 9, Lend = 16, Rstart = 7, Rend = 14\<rparr>,
          \<lparr>Op = Delete, Lstart = 16, Lend = 17, Rstart = 14, Rend = 14\<rparr>]"
  by code_simp+

lemma TestCompact_cases:
  "map_sum id (\<lambda>ds. Compact ds 2) (Make (testcase ''abc'' ''abc'')) = Inr []"
  "map_sum id (\<lambda>ds. Compact ds 2) (Make (testcase ''abcdef'' ''abcdef'')) = Inr []"
  "map_sum id (\<lambda>ds. Compact ds 2) (Make (testcase ''dddmmmm'' ''mmmm'')) =
     Inr [\<lparr>Op = Delete, Lstart = 0, Lend = 3, Rstart = 0, Rend = 0\<rparr>,
          \<lparr>Op = Match, Lstart = 3, Lend = 5, Rstart = 0, Rend = 2\<rparr>]"
  "map_sum id (\<lambda>ds. Compact ds 2) (Make (testcase ''mmmm'' ''mmmmddd'')) =
     Inr [\<lparr>Op = Match, Lstart = 2, Lend = 4, Rstart = 2, Rend = 4\<rparr>,
          \<lparr>Op = Insert, Lstart = 4, Lend = 4, Rstart = 4, Rend = 7\<rparr>]"
  "map_sum id (\<lambda>ds. Compact ds 2) (Make (testcase ''aBaCa'' ''aCaBa'')) =
     Inr [\<lparr>Op = Delete, Lstart = 0, Lend = 2, Rstart = 0, Rend = 0\<rparr>,
          \<lparr>Op = Match, Lstart = 2, Lend = 4, Rstart = 0, Rend = 2\<rparr>,
          \<lparr>Op = Insert, Lstart = 4, Lend = 4, Rstart = 2, Rend = 4\<rparr>,
          \<lparr>Op = Match, Lstart = 4, Lend = 5, Rstart = 4, Rend = 5\<rparr>]"
  "map_sum id (\<lambda>ds. Compact ds 2) (Make (testcase ''axxxxxxx'' ''xxxxxxx'')) =
     Inr [\<lparr>Op = Delete, Lstart = 0, Lend = 1, Rstart = 0, Rend = 0\<rparr>,
          \<lparr>Op = Match, Lstart = 1, Lend = 3, Rstart = 0, Rend = 2\<rparr>]"
  "map_sum id (\<lambda>ds. Compact ds 2) (Make (testcase ''xxxxxxx'' ''xxxxxxxb'')) =
     Inr [\<lparr>Op = Match, Lstart = 5, Lend = 7, Rstart = 5, Rend = 7\<rparr>,
          \<lparr>Op = Insert, Lstart = 7, Lend = 7, Rstart = 7, Rend = 8\<rparr>]"
  "map_sum id (\<lambda>ds. Compact ds 2) (Make (testcase ''lllllllaaarrrrrrr'' ''lllllllrrrrrrr'')) =
     Inr [\<lparr>Op = Match, Lstart = 5, Lend = 7, Rstart = 5, Rend = 7\<rparr>,
          \<lparr>Op = Delete, Lstart = 7, Lend = 10, Rstart = 7, Rend = 7\<rparr>,
          \<lparr>Op = Match, Lstart = 10, Lend = 12, Rstart = 7, Rend = 9\<rparr>]"
  "map_sum id (\<lambda>ds. Compact ds 2) (Make (testcase ''abbbbbbbcddddddde'' ''bbbbbbbddddddd'')) =
     Inr [\<lparr>Op = Delete, Lstart = 0, Lend = 1, Rstart = 0, Rend = 0\<rparr>,
          \<lparr>Op = Match, Lstart = 1, Lend = 3, Rstart = 0, Rend = 2\<rparr>,
          \<lparr>Op = Match, Lstart = 6, Lend = 8, Rstart = 5, Rend = 7\<rparr>,
          \<lparr>Op = Delete, Lstart = 8, Lend = 9, Rstart = 7, Rend = 7\<rparr>,
          \<lparr>Op = Match, Lstart = 9, Lend = 11, Rstart = 7, Rend = 9\<rparr>,
          \<lparr>Op = Match, Lstart = 14, Lend = 16, Rstart = 12, Rend = 14\<rparr>,
          \<lparr>Op = Delete, Lstart = 16, Lend = 17, Rstart = 14, Rend = 14\<rparr>]"
  by code_simp+

section \<open>The claims\<close>







text \<open>
  Claim C4. \<^verbatim>\<open>Make\<close> on \<^verbatim>\<open>"aBaCa"\<close> and \<^verbatim>\<open>"aCaBa"\<close> returns exactly the four records
  \<open>Delete 0 2 0 0\<close>, \<open>Match 2 4 0 2\<close>, \<open>Insert 4 4 2 4\<close>, \<open>Match 4 5 4 5\<close>; and the rule
  that breaks ties is: where the items differ, a cell is marked \<open>Delete\<close> (with the
  length of the delete neighbour) when the length of the insert neighbour is strictly
  less than that of the delete neighbour, and \<open>Insert\<close> (with the length of the insert
  neighbour) otherwise, equality included.
\<close>

theorem Make_aBaCa_aCaBa:
  "Make (testcase ''aBaCa'' ''aCaBa'') =
     Inr [\<lparr>Op = Delete, Lstart = 0, Lend = 2, Rstart = 0, Rend = 0\<rparr>,
          \<lparr>Op = Match, Lstart = 2, Lend = 4, Rstart = 0, Rend = 2\<rparr>,
          \<lparr>Op = Insert, Lstart = 4, Lend = 4, Rstart = 2, Rend = 4\<rparr>,
          \<lparr>Op = Match, Lstart = 4, Lend = 5, Rstart = 4, Rend = 5\<rparr>] \<and>
   fill_cell False lcell rcell lrcell =
     Some (if length_cell lcell < length_cell rcell
           then \<lparr>op = Delete, length_cell = length_cell rcell\<rparr>
           else \<lparr>op = Insert, length_cell = length_cell lcell\<rparr>)"
proof
  show "Make (testcase ''aBaCa'' ''aCaBa'') =
     Inr [\<lparr>Op = Delete, Lstart = 0, Lend = 2, Rstart = 0, Rend = 0\<rparr>,
          \<lparr>Op = Match, Lstart = 2, Lend = 4, Rstart = 0, Rend = 2\<rparr>,
          \<lparr>Op = Insert, Lstart = 4, Lend = 4, Rstart = 2, Rend = 4\<rparr>,
          \<lparr>Op = Match, Lstart = 4, Lend = 5, Rstart = 4, Rend = 5\<rparr>]"
    by code_simp
  show "fill_cell False lcell rcell lrcell =
     Some (if length_cell lcell < length_cell rcell
           then \<lparr>op = Delete, length_cell = length_cell rcell\<rparr>
           else \<lparr>op = Insert, length_cell = length_cell lcell\<rparr>)"
    by (simp add: fill_cell_def)
qed



text \<open>
  Claim C6 says that \<^verbatim>\<open>Make\<close> returns an empty script when both lengths are zero. It
  does not: the start cell of the table is labelled \<open>Match\<close>, the record under
  construction starts with that label, and the final call of \<^verbatim>\<open>record\<close> emits it.
\<close>

theorem Make_empty_not_empty_script:
  "Make \<lparr>LeftLen = 0, RightLen = 0, Equal = (\<lambda>l r. False)\<rparr> \<noteq> Inr []"
  by code_simp

text \<open>
  Claim C6, amended. When both lengths are zero, \<^verbatim>\<open>Make\<close> returns the script of one
  record, the \<open>Match\<close> of length zero at \<open>(0, 0)\<close>, whatever the predicate.
\<close>

theorem Make_empty_single_Match:
  "Make \<lparr>LeftLen = 0, RightLen = 0, Equal = eq\<rparr> =
     Inr [\<lparr>Op = Match, Lstart = 0, Lend = 0, Rstart = 0, Rend = 0\<rparr>]"
  using Make_diagonal[of "\<lparr>LeftLen = 0, RightLen = 0, Equal = eq\<rparr>"] by simp










end
